theory Spec2Isabelle
  imports Main
begin

section \<open>Text\<close>

text \<open>
  \<^verbatim>\<open>gen-sql-keywords.py\<close> reads \<^verbatim>\<open>tree-sitter-sql/grammar.js\<close> as a Python \<^verbatim>\<open>str\<close>,
  collects the first group of every match of the regular expression
  \<^verbatim>\<open>kw\("([\w ]+)"\)\<close> and writes a TypeScript list of them to \<^verbatim>\<open>src/sql.ts\<close>.

  A Python \<^verbatim>\<open>str\<close> is a sequence of Unicode code points, modelled as a list of
  naturals. Literals are written as Isabelle strings and converted by \<open>of_string\<close>
  (an Isabelle character is its code point below 256).
\<close>

type_synonym codepoint = nat
type_synonym pystr = "codepoint list"

definition of_string :: "string \<Rightarrow> pystr" where
  "of_string s = map of_char s"

section \<open>The character class \<^verbatim>\<open>[\w ]\<close>\<close>

text \<open>
  For a \<^verbatim>\<open>str\<close> pattern without flags \<^verbatim>\<open>\w\<close> is the underscore and every code point
  that is alphanumeric in the Unicode database. On ASCII that is \<^verbatim>\<open>[0-9A-Za-z_]\<close>. The
  database is not part of the repository: its answer for the code points from 128 on
  is the parameter \<open>tbl\<close> of every definition below, and every theorem holds for
  every \<open>tbl\<close>.
\<close>

definition ascii_word :: "codepoint \<Rightarrow> bool" where
  "ascii_word c =
     ((48 \<le> c \<and> c \<le> 57) \<or> (65 \<le> c \<and> c \<le> 90) \<or> c = 95 \<or> (97 \<le> c \<and> c \<le> 122))"

definition word_char :: "(codepoint \<Rightarrow> bool) \<Rightarrow> codepoint \<Rightarrow> bool" where
  "word_char tbl c = (if c < 128 then ascii_word c else tbl c)"

text \<open>The bracket expression \<^verbatim>\<open>[\w ]\<close>: a word character or the space (code point 32).\<close>

definition kw_class :: "(codepoint \<Rightarrow> bool) \<Rightarrow> codepoint \<Rightarrow> bool" where
  "kw_class tbl c = (word_char tbl c \<or> c = 32)"

text \<open>
  A table that classifies no code point from 128 on as alphanumeric. It closes the
  examples: their texts are ASCII, where every table gives the same matches
  (\<open>finditer_ascii\<close>, \<open>generate_ascii\<close>).
\<close>

definition ascii_only :: "codepoint \<Rightarrow> bool" where
  "ascii_only c = False"

section \<open>Matching \<^verbatim>\<open>kw\("([\w ]+)"\)\<close> at one position\<close>

text \<open>The literal parts of the pattern: \<^verbatim>\<open>kw\("\<close> before the group and \<^verbatim>\<open>"\)\<close> after it.\<close>

definition marker_open :: pystr where
  "marker_open = of_string ''kw(\"''"

definition marker_close :: pystr where
  "marker_close = of_string ''\")''"

text \<open>Matching a literal: the text must start with it; what follows is returned.\<close>

fun strip_prefix :: "pystr \<Rightarrow> pystr \<Rightarrow> pystr option" where
  "strip_prefix [] t = Some t"
| "strip_prefix (p # ps) [] = None"
| "strip_prefix (p # ps) (c # cs) = (if p = c then strip_prefix ps cs else None)"

text \<open>
  The greedy \<^verbatim>\<open>+\<close> as the backtracking engine runs it: \<open>try_runs r n\<close> lets the group
  take the first \<open>n\<close> characters of \<open>r\<close> and matches the closing literal after them; when
  that fails the group gives one character back, down to a single character. A group of
  no character is no match.
\<close>

fun try_runs :: "pystr \<Rightarrow> nat \<Rightarrow> (pystr \<times> pystr) option" where
  "try_runs r 0 = None"
| "try_runs r (Suc n) =
     (case strip_prefix marker_close (drop (Suc n) r) of
        Some rest \<Rightarrow> Some (take (Suc n) r, rest)
      | None \<Rightarrow> try_runs r n)"

text \<open>
  \<open>match_at tbl t\<close> is the match that starts at the first character of \<open>t\<close>:
  \<^verbatim>\<open>group(1)\<close> and the text after the match. The group starts with the longest run of
  class characters.
\<close>

definition match_at :: "(codepoint \<Rightarrow> bool) \<Rightarrow> pystr \<Rightarrow> (pystr \<times> pystr) option" where
  "match_at tbl t =
     (case strip_prefix marker_open t of
        None \<Rightarrow> None
      | Some r \<Rightarrow> try_runs r (length (takeWhile (kw_class tbl) r)))"

text \<open>
  A match takes at least the marker from the text: what is left after it is shorter. The
  scan below ends for this reason.
\<close>

lemma strip_prefix_Some: "strip_prefix p t = Some r \<longleftrightarrow> t = p @ r"
  by (induction p t rule: strip_prefix.induct) auto

lemma try_runs_shorter: "try_runs r n = Some (k, rest) \<Longrightarrow> length rest \<le> length r"
proof (induction n)
  case 0
  then show ?case by simp
next
  case (Suc n)
  show ?case
  proof (cases "strip_prefix marker_close (drop (Suc n) r)")
    case None
    with Suc show ?thesis by simp
  next
    case (Some r')
    then have "drop (Suc n) r = marker_close @ r'"
      by (simp add: strip_prefix_Some)
    then have "length r' \<le> length (drop (Suc n) r)"
      by simp
    moreover from Some Suc.prems have "rest = r'"
      by simp
    ultimately show ?thesis
      by simp
  qed
qed

lemma match_at_shorter:
  assumes "match_at tbl t = Some (k, rest)"
  shows "length rest < length t"
proof -
  from assms obtain r where r: "strip_prefix marker_open t = Some r"
    and tr: "try_runs r (length (takeWhile (kw_class tbl) r)) = Some (k, rest)"
    by (auto simp: match_at_def split: option.splits)
  from r have "t = marker_open @ r"
    by (simp add: strip_prefix_Some)
  then have "length r < length t"
    by (simp add: marker_open_def of_string_def)
  with try_runs_shorter [OF tr] show ?thesis
    by simp
qed

section \<open>\<^verbatim>\<open>re.finditer\<close>\<close>

text \<open>
  \<^verbatim>\<open>re.finditer\<close> scans from left to right: at each position it tries the pattern;
  after a match it goes on at the end of the match, otherwise at the next character.
  The pattern matches no empty string, so the scan ends with the text. The result is
  \<^verbatim>\<open>m.group(1)\<close> of every match object, in the order the iterator yields them.
\<close>

function finditer :: "(codepoint \<Rightarrow> bool) \<Rightarrow> pystr \<Rightarrow> pystr list" where
  "finditer tbl [] = []"
| "finditer tbl (c # cs) =
     (case match_at tbl (c # cs) of
        Some (k, rest) \<Rightarrow> k # finditer tbl rest
      | None \<Rightarrow> finditer tbl cs)"
  by pat_completeness auto
termination
  by (relation "measure (\<lambda>(tbl, t). length t)") (auto dest: match_at_shorter)

section \<open>The generated file\<close>

text \<open>
  The script appends to \<^verbatim>\<open>chunks\<close>: the opening line, one line per match (two spaces,
  the keyword between single quotes, a comma, a newline), and the closing line.
\<close>

definition header :: pystr where
  "header = of_string ''export const KEYWORDS = [\<newline>''"

definition footer :: pystr where
  "footer = of_string '']\<newline>''"

text \<open>The single quote is code point 39 (\<open>CHR 0x27\<close>).\<close>

definition element :: "pystr \<Rightarrow> pystr" where
  "element k =
     of_string [CHR '' '', CHR '' '', CHR 0x27] @ k @ of_string [CHR 0x27, CHR '','', CHR 0x0A]"

text \<open>The \<^verbatim>\<open>for\<close> loop over the matches, appending to the list it starts from.\<close>

definition append_matches :: "pystr list \<Rightarrow> pystr list \<Rightarrow> pystr list" where
  "append_matches acc ks = foldl (\<lambda>acc k. acc @ [element k]) acc ks"

definition chunks :: "(codepoint \<Rightarrow> bool) \<Rightarrow> pystr \<Rightarrow> pystr list" where
  "chunks tbl t = append_matches ([] @ [header]) (finditer tbl t) @ [footer]"

text \<open>\<^verbatim>\<open>''.join(chunks)\<close>: the text the script writes.\<close>

definition generate :: "(codepoint \<Rightarrow> bool) \<Rightarrow> pystr \<Rightarrow> pystr" where
  "generate tbl t = concat (chunks tbl t)"

section \<open>The run on a file system\<close>

text \<open>
  The two paths are constants of the script. A file system maps a path to the text of
  the file there, as \<^verbatim>\<open>read_text\<close> returns it and \<^verbatim>\<open>write_text\<close> is given it (a file that
  is absent, unreadable or not decodable as text has no text), and says where a file can
  be created or overwritten. Different paths name different files. \<^verbatim>\<open>read_text\<close> and
  \<^verbatim>\<open>write_text\<close> raise where the file system refuses; the script catches nothing, so the
  run ends there: a failed read writes nothing.
\<close>

type_synonym path = string

datatype error = ReadError | WriteError

record filesystem =
  files :: "path \<rightharpoonup> pystr"
  writable :: "path \<Rightarrow> bool"

definition grammar_path :: path where
  "grammar_path = ''tree-sitter-sql/grammar.js''"

definition output_path :: path where
  "output_path = ''src/sql.ts''"

definition read_text :: "filesystem \<Rightarrow> path \<Rightarrow> error + pystr" where
  "read_text fs p = (case files fs p of None \<Rightarrow> Inl ReadError | Some t \<Rightarrow> Inr t)"

definition write_text :: "filesystem \<Rightarrow> path \<Rightarrow> pystr \<Rightarrow> error + filesystem" where
  "write_text fs p t =
     (if writable fs p then Inr (fs\<lparr>files := (files fs)(p \<mapsto> t)\<rparr>) else Inl WriteError)"

definition run :: "(codepoint \<Rightarrow> bool) \<Rightarrow> filesystem \<Rightarrow> error + filesystem" where
  "run tbl fs =
     (case read_text fs grammar_path of
        Inl e \<Rightarrow> Inl e
      | Inr t \<Rightarrow> write_text fs output_path (generate tbl t))"

section \<open>Vocabulary of the properties\<close>

text \<open>
  A keyword is what the group can capture: a non-empty text of class characters. An
  occurrence of the pattern is the marker, the opening parenthesis, the keyword between
  double quotes and the closing parenthesis.
\<close>

definition keyword :: "(codepoint \<Rightarrow> bool) \<Rightarrow> pystr \<Rightarrow> bool" where
  "keyword tbl k = (k \<noteq> [] \<and> list_all (kw_class tbl) k)"

definition occurrence :: "pystr \<Rightarrow> pystr" where
  "occurrence k = marker_open @ k @ marker_close"

text \<open>A text is free of the pattern when no occurrence lies anywhere in it.\<close>

definition pattern_free :: "(codepoint \<Rightarrow> bool) \<Rightarrow> pystr \<Rightarrow> bool" where
  "pattern_free tbl t = (\<nexists>p k s. keyword tbl k \<and> t = p @ occurrence k @ s)"

text \<open>
  A text with given occurrences: the texts between them (each free of the pattern when
  the occurrences are to be all there are), the keywords in their order, and the text
  after the last occurrence.
\<close>

fun assemble :: "(pystr \<times> pystr) list \<Rightarrow> pystr \<Rightarrow> pystr" where
  "assemble [] g = g"
| "assemble ((g0, k) # gks) g = g0 @ occurrence k @ assemble gks g"

text \<open>
  Two texts that resemble an occurrence: the argument between single quotes, and the
  argument with no quotes.
\<close>

definition single_quoted :: "pystr \<Rightarrow> pystr" where
  "single_quoted x = of_string ''kw('' @ of_string [CHR 0x27] @ x @ of_string [CHR 0x27] @ of_string '')''"

definition unquoted :: "pystr \<Rightarrow> pystr" where
  "unquoted x = of_string ''kw('' @ x @ of_string '')''"

text \<open>
  A file system for the examples: the grammar file holds \<open>t\<close>, the output file holds
  \<open>old\<close> (or is absent), and every path can be written.
\<close>

definition example_fs :: "pystr \<Rightarrow> pystr option \<Rightarrow> filesystem" where
  "example_fs t old = \<lparr>files = (Map.empty(grammar_path \<mapsto> t))(output_path := old), writable = (\<lambda>p. True)\<rparr>"

section \<open>One match\<close>

text \<open>The ASCII word characters, as characters.\<close>

lemma ascii_word_chars:
  "filter ascii_word [0..<128] =
     of_string ''0123456789ABCDEFGHIJKLMNOPQRSTUVWXYZ_abcdefghijklmnopqrstuvwxyz''"
  by code_simp

lemma marker_open_simp: "marker_open = [107, 119, 40, 34]"
  by (simp add: marker_open_def of_string_def)

lemma marker_close_simp: "marker_close = [34, 41]"
  by (simp add: marker_close_def of_string_def)

lemma kw_class_simps:
  "kw_class tbl 107" "kw_class tbl 119" "\<not> kw_class tbl 40" "\<not> kw_class tbl 34"
  "\<not> kw_class tbl 41" "\<not> kw_class tbl 39" "\<not> kw_class tbl 10" "\<not> kw_class tbl 91" "\<not> kw_class tbl 93"
  by (simp_all add: kw_class_def word_char_def ascii_word_def)

lemma try_runs_Some:
  "try_runs r n = Some (k, rest) \<Longrightarrow>
     \<exists>m. 0 < m \<and> m \<le> n \<and> k = take m r \<and> drop m r = marker_close @ rest"
proof (induction n)
  case 0
  then show ?case by simp
next
  case (Suc n)
  show ?case
  proof (cases "strip_prefix marker_close (drop (Suc n) r)")
    case None
    with Suc.prems have "try_runs r n = Some (k, rest)" by simp
    from Suc.IH [OF this] show ?thesis by (auto intro: le_SucI)
  next
    case (Some r')
    with Suc.prems have "k = take (Suc n) r" "rest = r'" by simp_all
    moreover from Some have "drop (Suc n) r = marker_close @ r'"
      by (simp add: strip_prefix_Some)
    ultimately show ?thesis by blast
  qed
qed

lemma try_runs_hit:
  "strip_prefix marker_close (drop (Suc n) r) = Some rest \<Longrightarrow>
     try_runs r (Suc n) = Some (take (Suc n) r, rest)"
  by simp

lemma match_at_intro:
  assumes "keyword tbl k"
  shows "match_at tbl (occurrence k @ rest) = Some (k, rest)"
proof -
  from assms obtain n where n: "length k = Suc n"
    by (cases k) (auto simp: keyword_def)
  let ?r = "k @ marker_close @ rest"
  have tw: "takeWhile (kw_class tbl) ?r = k"
    using assms by (simp add: keyword_def marker_close_simp kw_class_simps list_all_iff takeWhile_append2)
  have "strip_prefix marker_open (occurrence k @ rest) = Some ?r"
    by (simp add: occurrence_def strip_prefix_Some)
  moreover have "try_runs ?r (Suc n) = Some (take (Suc n) ?r, rest)"
    by (rule try_runs_hit) (simp add: n [symmetric] strip_prefix_Some)
  ultimately show ?thesis
    by (simp add: match_at_def tw n)
qed

lemma match_at_elim:
  assumes "match_at tbl t = Some (k, rest)"
  shows "keyword tbl k \<and> t = occurrence k @ rest"
proof -
  from assms obtain r where r: "t = marker_open @ r"
    and tr: "try_runs r (length (takeWhile (kw_class tbl) r)) = Some (k, rest)"
    by (auto simp: match_at_def strip_prefix_Some split: option.splits)
  from try_runs_Some [OF tr] obtain m where m: "0 < m" "m \<le> length (takeWhile (kw_class tbl) r)"
    "k = take m r" "drop m r = marker_close @ rest" by blast
  have "k = take m (takeWhile (kw_class tbl) r)"
    using m(2,3) by (metis append_eq_conv_conj takeWhile_dropWhile_id take_append diff_is_0_eq take_0 append_Nil2)
  then have "set k \<subseteq> set (takeWhile (kw_class tbl) r)"
    by (simp add: set_take_subset)
  then have "list_all (kw_class tbl) k"
    by (auto simp: list_all_iff dest: set_takeWhileD)
  moreover have "k \<noteq> []"
    using m by (cases r) auto
  moreover have "r = k @ marker_close @ rest"
    using m(3,4) by (metis append_take_drop_id)
  ultimately show ?thesis
    using r by (simp add: keyword_def occurrence_def)
qed

lemma match_at_iff:
  "match_at tbl t = Some (k, rest) \<longleftrightarrow> keyword tbl k \<and> t = occurrence k @ rest"
  using match_at_intro match_at_elim by blast


lemma occurrence_simp: "occurrence k = 107 # 119 # 40 # 34 # k @ [34, 41]"
  by (simp add: occurrence_def marker_open_simp marker_close_simp)

lemma keyword_no_paren: "keyword tbl k \<Longrightarrow> 40 \<notin> set k"
  by (auto simp: keyword_def list_all_iff kw_class_simps)

lemma no_straddle:
  assumes ne: "s \<noteq> []"
    and m: "match_at tbl (s @ 107 # 119 # 40 # b) = Some (k, r')"
  shows "\<exists>r. s = occurrence k @ r \<and> r' = r @ 107 # 119 # 40 # b"
proof -
  from m have kw: "keyword tbl k" and eq: "s @ 107 # 119 # 40 # b = occurrence k @ r'"
    by (simp_all add: match_at_iff)
  from eq consider us where "s = occurrence k @ us" "us @ 107 # 119 # 40 # b = r'"
    | us where "us \<noteq> []" "s @ us = occurrence k" "107 # 119 # 40 # b = us @ r'"
    by (auto simp: append_eq_append_conv2) (metis append_Nil2 append_Nil)
  then show ?thesis
  proof cases
    case 1
    then show ?thesis by blast
  next
    case 2
    from 2(1,3) consider "us = [107]" | "us = [107, 119]" | us' where "us = 107 # 119 # 40 # us'"
      by (auto simp: Cons_eq_append_conv)
    then have False
    proof cases
      case 1
      with 2(2) have "last (occurrence k) = 107" by (metis last_snoc)
      then show False by (simp add: occurrence_simp)
    next
      case 2
      with \<open>s @ us = occurrence k\<close> have "last (occurrence k) = 119"
        by (metis last_appendR last.simps list.distinct(1))
      then show False by (simp add: occurrence_simp)
    next
      case 3
      with \<open>s @ us = occurrence k\<close> ne kw show False
        by (auto simp: occurrence_simp append_eq_Cons_conv Cons_eq_append_conv append_eq_append_conv2
            dest!: keyword_no_paren)
    qed
    then show ?thesis ..
  qed
qed


section \<open>The scan\<close>

lemma finditer_None: "match_at tbl (c # cs) = None \<Longrightarrow> finditer tbl (c # cs) = finditer tbl cs"
  by simp

lemma finditer_Some:
  "match_at tbl (c # cs) = Some (k, rest) \<Longrightarrow> finditer tbl (c # cs) = k # finditer tbl rest"
  by simp

declare finditer.simps(2) [simp del]

lemma finditer_occurrence:
  assumes "keyword tbl k"
  shows "finditer tbl (occurrence k @ b) = k # finditer tbl b"
proof -
  obtain c cs where "occurrence k @ b = c # cs"
    by (simp add: occurrence_simp)
  with match_at_intro [OF assms, of b] show ?thesis
    by (simp only: finditer_Some)
qed

lemma match_at_before_marker:
  assumes "s \<noteq> []"
  shows "match_at tbl (s @ 107 # 119 # 40 # b) =
    map_option (\<lambda>(k, r). (k, r @ 107 # 119 # 40 # b)) (match_at tbl s)"
proof (cases "match_at tbl s")
  case None
  have "match_at tbl (s @ 107 # 119 # 40 # b) = None"
  proof (rule ccontr)
    assume "match_at tbl (s @ 107 # 119 # 40 # b) \<noteq> None"
    then obtain k r' where "match_at tbl (s @ 107 # 119 # 40 # b) = Some (k, r')"
      by auto
    from no_straddle [OF assms this] obtain r where "s = occurrence k @ r"
      by blast
    moreover from \<open>match_at tbl (s @ 107 # 119 # 40 # b) = Some (k, r')\<close> have "keyword tbl k"
      by (simp add: match_at_iff)
    ultimately have "match_at tbl s = Some (k, r)"
      by (simp add: match_at_iff)
    with None show False by simp
  qed
  with None show ?thesis by simp
next
  case (Some p)
  obtain k r where p: "p = (k, r)" by (cases p)
  with Some have "keyword tbl k" "s = occurrence k @ r"
    by (simp_all add: match_at_iff)
  then have "match_at tbl (s @ 107 # 119 # 40 # b) = Some (k, r @ 107 # 119 # 40 # b)"
    by (simp add: match_at_iff)
  with Some p show ?thesis by simp
qed

lemma finditer_before_marker:
  "finditer tbl (a @ 107 # 119 # 40 # b) = finditer tbl a @ finditer tbl (107 # 119 # 40 # b)"
proof (induction tbl a rule: finditer.induct)
  case (1 tbl)
  show ?case by simp
next
  case (2 tbl c cs)
  have step: "match_at tbl ((c # cs) @ 107 # 119 # 40 # b) =
    map_option (\<lambda>(k, r). (k, r @ 107 # 119 # 40 # b)) (match_at tbl (c # cs))"
    by (rule match_at_before_marker) simp
  show ?case
  proof (cases "match_at tbl (c # cs)")
    case None
    with step have "match_at tbl (c # (cs @ 107 # 119 # 40 # b)) = None" by simp
    then have "finditer tbl (c # (cs @ 107 # 119 # 40 # b)) = finditer tbl (cs @ 107 # 119 # 40 # b)"
      by (rule finditer_None)
    with None 2(1) show ?thesis by (simp add: finditer_None)
  next
    case (Some p)
    obtain k r where p: "p = (k, r)" by (cases p)
    with Some step have "match_at tbl (c # (cs @ 107 # 119 # 40 # b)) = Some (k, r @ 107 # 119 # 40 # b)"
      by simp
    then have "finditer tbl (c # (cs @ 107 # 119 # 40 # b)) = k # finditer tbl (r @ 107 # 119 # 40 # b)"
      by (rule finditer_Some)
    moreover from Some p have "finditer tbl (c # cs) = k # finditer tbl r"
      by (simp add: finditer_Some)
    moreover from 2(2) [OF Some p [symmetric]]
    have "finditer tbl (r @ 107 # 119 # 40 # b) = finditer tbl r @ finditer tbl (107 # 119 # 40 # b)" .
    ultimately show ?thesis by simp
  qed
qed

lemma finditer_compose:
  assumes "keyword tbl k"
  shows "finditer tbl (a @ occurrence k @ b) = finditer tbl a @ k # finditer tbl b"
proof -
  have "finditer tbl (a @ occurrence k @ b) = finditer tbl a @ finditer tbl (occurrence k @ b)"
    using finditer_before_marker [of tbl a "34 # k @ [34, 41] @ b"]
    by (simp add: occurrence_simp)
  with finditer_occurrence [OF assms] show ?thesis by simp
qed

lemma finditer_sound:
  "k \<in> set (finditer tbl t) \<Longrightarrow> keyword tbl k \<and> (\<exists>p s. t = p @ occurrence k @ s)"
proof (induction tbl t rule: finditer.induct)
  case (1 tbl)
  then show ?case by simp
next
  case (2 tbl c cs)
  show ?case
  proof (cases "match_at tbl (c # cs)")
    case None
    with 2 have "keyword tbl k \<and> (\<exists>p s. cs = p @ occurrence k @ s)" by (simp add: finditer_None)
    then obtain p s where "keyword tbl k" "c # cs = (c # p) @ occurrence k @ s" by auto
    then show ?thesis by blast
  next
    case (Some q)
    obtain k' r where q: "q = (k', r)" by (cases q)
    with Some have k': "keyword tbl k'" "c # cs = occurrence k' @ r"
      by (simp_all add: match_at_iff)
    from Some q 2(3) have "k = k' \<or> k \<in> set (finditer tbl r)" by (simp add: finditer_Some)
    then show ?thesis
    proof
      assume "k = k'"
      with k' have "c # cs = [] @ occurrence k @ r" by simp
      with k' \<open>k = k'\<close> show ?thesis by blast
    next
      assume "k \<in> set (finditer tbl r)"
      with 2(2) [OF Some q [symmetric]] obtain p s where "keyword tbl k" "r = p @ occurrence k @ s"
        by blast
      with k' have "c # cs = (occurrence k' @ p) @ occurrence k @ s" by simp
      with \<open>keyword tbl k\<close> show ?thesis by blast
    qed
  qed
qed

lemma pattern_free_iff: "pattern_free tbl t \<longleftrightarrow> finditer tbl t = []"
proof
  assume f: "pattern_free tbl t"
  show "finditer tbl t = []"
  proof (rule ccontr)
    assume "finditer tbl t \<noteq> []"
    then obtain k where "k \<in> set (finditer tbl t)" by (cases "finditer tbl t") auto
    from finditer_sound [OF this] f show False by (auto simp: pattern_free_def)
  qed
next
  assume e: "finditer tbl t = []"
  show "pattern_free tbl t"
    unfolding pattern_free_def
  proof
    assume "\<exists>p k s. keyword tbl k \<and> t = p @ occurrence k @ s"
    then obtain p k s where "keyword tbl k" "t = p @ occurrence k @ s" by blast
    with finditer_compose [of tbl k p s] e show False by simp
  qed
qed

section \<open>The generated text\<close>

lemma append_matches_eq: "append_matches acc ks = acc @ map element ks"
  unfolding append_matches_def by (induction ks arbitrary: acc) simp_all

lemma generate_eq: "generate tbl t = header @ concat (map element (finditer tbl t)) @ footer"
  by (simp add: generate_def chunks_def append_matches_eq)

lemma finditer_keywords: "list_all (keyword tbl) (finditer tbl t)"
  using finditer_sound [of _ tbl t] by (auto simp: list_all_iff)

section \<open>ASCII texts\<close>

text \<open>On a text of ASCII characters the table is never asked.\<close>

lemma match_at_ascii:
  assumes "list_all (\<lambda>c. c < 128) t"
  shows "match_at tbl t = match_at tbl' t"
proof (cases "strip_prefix marker_open t")
  case None
  then show ?thesis by (simp add: match_at_def)
next
  case (Some r)
  then have "t = marker_open @ r" by (simp add: strip_prefix_Some)
  with assms have "\<And>c. c \<in> set r \<Longrightarrow> kw_class tbl c = kw_class tbl' c"
    by (auto simp: list_all_iff kw_class_def word_char_def)
  then have "takeWhile (kw_class tbl) r = takeWhile (kw_class tbl') r"
    by (rule takeWhile_cong [OF refl])
  with Some show ?thesis by (simp add: match_at_def)
qed

lemma finditer_ascii:
  "list_all (\<lambda>c. c < 128) t \<Longrightarrow> finditer tbl t = finditer tbl' t"
proof (induction tbl t rule: finditer.induct)
  case (1 tbl)
  show ?case by simp
next
  case (2 tbl c cs)
  from 2(3) have eq: "match_at tbl (c # cs) = match_at tbl' (c # cs)"
    by (rule match_at_ascii)
  show ?case
  proof (cases "match_at tbl (c # cs)")
    case None
    with 2(1) [OF None] 2(3) eq show ?thesis
      by (simp add: finditer_None)
  next
    case (Some p)
    obtain k r where p: "p = (k, r)" by (cases p)
    with Some have "c # cs = occurrence k @ r" by (simp add: match_at_iff)
    with 2(3) have "list_all (\<lambda>c. c < 128) r"
      by (metis list_all_append)
    from 2(2) [OF Some p [symmetric] this] Some p eq show ?thesis
      by (simp add: finditer_Some)
  qed
qed

lemma generate_ascii:
  "list_all (\<lambda>c. c < 128) t \<Longrightarrow> generate tbl t = generate tbl' t"
  by (simp add: generate_eq finditer_ascii [of t tbl tbl'])

section \<open>Texts that hold no match\<close>

lemma match_at_start: "match_at tbl u = Some p \<Longrightarrow> \<exists>c v. kw_class tbl c \<and> u = 107 # 119 # 40 # 34 # c # v"
proof -
  assume a: "match_at tbl u = Some p"
  obtain k r where "p = (k, r)" by (cases p)
  with a have "keyword tbl k" "u = occurrence k @ r" by (simp_all add: match_at_iff)
  then show ?thesis by (cases k) (auto simp: keyword_def occurrence_simp)
qed

lemma finditer_skip_char: "c \<noteq> 107 \<Longrightarrow> finditer tbl (c # cs) = finditer tbl cs"
proof (rule finditer_None)
  assume "c \<noteq> 107"
  then show "match_at tbl (c # cs) = None"
    using match_at_start [of tbl "c # cs"] by (cases "match_at tbl (c # cs)") auto
qed

lemma match_at_first_nonclass:
  assumes "match_at tbl u = Some p"
  shows "\<exists>v. dropWhile (kw_class tbl) u = 40 # v"
proof -
  from match_at_start [OF assms] obtain v where "u = 107 # 119 # 40 # v" by blast
  then show ?thesis by (simp add: kw_class_simps)
qed

lemma finditer_skip_run:
  assumes "list_all (kw_class tbl) x" "\<not> kw_class tbl q" "q \<noteq> 40"
  shows "finditer tbl (x @ q # rest) = finditer tbl (q # rest)"
  using assms(1)
proof (induction x)
  case Nil
  show ?case by simp
next
  case (Cons c x)
  have "match_at tbl (c # x @ q # rest) = None"
  proof (cases "match_at tbl (c # x @ q # rest)")
    case None
    then show ?thesis .
  next
    case (Some p)
    from match_at_first_nonclass [OF Some] obtain v
      where "dropWhile (kw_class tbl) ((c # x) @ q # rest) = 40 # v" by auto
    moreover have "dropWhile (kw_class tbl) ((c # x) @ q # rest) = q # rest"
      using Cons.prems assms(2) by (subst dropWhile_append2) (auto simp: list_all_iff)
    ultimately show ?thesis using assms(3) by simp
  qed
  then have "finditer tbl (c # x @ q # rest) = finditer tbl (x @ q # rest)"
    by (rule finditer_None)
  with Cons show ?case by simp
qed

lemma single_quoted_simp: "single_quoted x = 107 # 119 # 40 # 39 # x @ [39, 41]"
  by (simp add: single_quoted_def of_string_def)

lemma unquoted_simp: "unquoted x = 107 # 119 # 40 # x @ [41]"
  by (simp add: unquoted_def of_string_def)

lemma finditer_single_quoted:
  assumes "list_all (kw_class tbl) x"
  shows "finditer tbl (single_quoted x @ b) = finditer tbl b"
proof -
  have "match_at tbl (107 # 119 # 40 # 39 # x @ 39 # 41 # b) = None"
    using match_at_start [of tbl "107 # 119 # 40 # 39 # x @ 39 # 41 # b"]
    by (cases "match_at tbl (107 # 119 # 40 # 39 # x @ 39 # 41 # b)") auto
  then have "finditer tbl (107 # 119 # 40 # 39 # x @ 39 # 41 # b) = finditer tbl (119 # 40 # 39 # x @ 39 # 41 # b)"
    by (rule finditer_None)
  also have "\<dots> = finditer tbl (x @ 39 # 41 # b)"
    by (simp add: finditer_skip_char)
  also have "\<dots> = finditer tbl (39 # 41 # b)"
    using assms by (rule finditer_skip_run) (simp_all add: kw_class_simps)
  also have "\<dots> = finditer tbl b"
    by (simp add: finditer_skip_char)
  finally show ?thesis by (simp add: single_quoted_simp)
qed

lemma finditer_unquoted:
  assumes "list_all (kw_class tbl) x"
  shows "finditer tbl (unquoted x @ b) = finditer tbl b"
proof -
  have "match_at tbl (107 # 119 # 40 # x @ 41 # b) = None"
  proof (cases "match_at tbl (107 # 119 # 40 # x @ 41 # b)")
    case None
    then show ?thesis .
  next
    case (Some p)
    from match_at_start [OF Some] assms show ?thesis
      by (cases x) (auto simp: kw_class_simps)
  qed
  then have "finditer tbl (107 # 119 # 40 # x @ 41 # b) = finditer tbl (119 # 40 # x @ 41 # b)"
    by (rule finditer_None)
  also have "\<dots> = finditer tbl (x @ 41 # b)"
    by (simp add: finditer_skip_char)
  also have "\<dots> = finditer tbl (41 # b)"
    using assms by (rule finditer_skip_run) (simp_all add: kw_class_simps)
  also have "\<dots> = finditer tbl b"
    by (simp add: finditer_skip_char)
  finally show ?thesis by (simp add: unquoted_simp)
qed

lemma finditer_empty_argument: "finditer tbl (of_string ''kw(\"\")'' @ b) = finditer tbl b"
proof -
  have "match_at tbl (107 # 119 # 40 # 34 # 34 # 41 # b) = None"
    using match_at_start [of tbl "107 # 119 # 40 # 34 # 34 # 41 # b"]
    by (cases "match_at tbl (107 # 119 # 40 # 34 # 34 # 41 # b)") (auto simp: kw_class_simps)
  then have "finditer tbl (107 # 119 # 40 # 34 # 34 # 41 # b) = finditer tbl (119 # 40 # 34 # 34 # 41 # b)"
    by (rule finditer_None)
  then show ?thesis
    by (simp add: of_string_def finditer_skip_char)
qed

lemma free_word: "list_all (word_char tbl) w \<Longrightarrow> pattern_free tbl w"
  unfolding pattern_free_def
proof
  assume w: "list_all (word_char tbl) w" and "\<exists>p k s. keyword tbl k \<and> w = p @ occurrence k @ s"
  then obtain p k s where "w = p @ occurrence k @ s" by blast
  then have "40 \<in> set w" by (simp add: occurrence_simp)
  with w have "word_char tbl 40" by (simp add: list_all_iff)
  then show False by (simp add: word_char_def ascii_word_def)
qed

section \<open>Texts with given occurrences\<close>

lemma finditer_assemble:
  assumes "list_all (\<lambda>(g, k). pattern_free tbl g \<and> keyword tbl k) gks" and "pattern_free tbl g"
  shows "finditer tbl (assemble gks g) = map snd gks"
  using assms(1)
proof (induction gks)
  case Nil
  from assms(2) show ?case by (simp add: pattern_free_iff)
next
  case (Cons gk gks)
  obtain g0 k where gk: "gk = (g0, k)" by (cases gk)
  with Cons.prems have "pattern_free tbl g0" "keyword tbl k" by simp_all
  then have "finditer tbl (g0 @ occurrence k @ assemble gks g) = k # finditer tbl (assemble gks g)"
    by (simp add: finditer_compose pattern_free_iff)
  with Cons gk show ?case by simp
qed

lemma every_text_assembled:
  "\<exists>gks g. t = assemble gks g \<and> list_all (\<lambda>(g, k). pattern_free tbl g \<and> keyword tbl k) gks \<and> pattern_free tbl g"
proof (induction tbl t rule: finditer.induct)
  case (1 tbl)
  have "[] = assemble [] [] \<and> list_all (\<lambda>(g, k). pattern_free tbl g \<and> keyword tbl k) [] \<and> pattern_free tbl []"
    by (simp add: pattern_free_iff)
  then show ?case by blast
next
  case (2 tbl c cs)
  show ?case
  proof (cases "match_at tbl (c # cs)")
    case None
    from 2(1) [OF None] obtain gks g where IH: "cs = assemble gks g"
      "list_all (\<lambda>(g, k). pattern_free tbl g \<and> keyword tbl k) gks" "pattern_free tbl g"
      by blast
    show ?thesis
    proof (cases gks)
      case Nil
      with IH None have "pattern_free tbl (c # cs)"
        by (simp add: pattern_free_iff finditer_None)
      then have "c # cs = assemble [] (c # cs) \<and>
          list_all (\<lambda>(g, k). pattern_free tbl g \<and> keyword tbl k) [] \<and> pattern_free tbl (c # cs)"
        by simp
      then show ?thesis by blast
    next
      case (Cons gk gks')
      obtain g0 k where gk: "gk = (g0, k)" by (cases gk)
      from IH(1) Cons gk have cs: "cs = g0 @ 107 # 119 # 40 # (34 # k @ [34, 41] @ assemble gks' g)"
        by (simp add: occurrence_simp)
      have "match_at tbl ((c # g0) @ 107 # 119 # 40 # (34 # k @ [34, 41] @ assemble gks' g)) =
          map_option (\<lambda>(k', r). (k', r @ 107 # 119 # 40 # (34 # k @ [34, 41] @ assemble gks' g)))
            (match_at tbl (c # g0))"
        by (rule match_at_before_marker) simp
      with None cs have "match_at tbl (c # g0) = None"
        by simp
      then have "finditer tbl (c # g0) = finditer tbl g0"
        by (rule finditer_None)
      with IH(2) Cons gk have "pattern_free tbl (c # g0)"
        by (simp add: pattern_free_iff)
      with IH Cons gk have "c # cs = assemble ((c # g0, k) # gks') g \<and>
          list_all (\<lambda>(g, k). pattern_free tbl g \<and> keyword tbl k) ((c # g0, k) # gks') \<and> pattern_free tbl g"
        by simp
      then show ?thesis by blast
    qed
  next
    case (Some p)
    obtain k r where p: "p = (k, r)" by (cases p)
    from 2(2) [OF Some p [symmetric]] obtain gks g where IH: "r = assemble gks g"
      "list_all (\<lambda>(g, k). pattern_free tbl g \<and> keyword tbl k) gks" "pattern_free tbl g"
      by blast
    from Some p have "keyword tbl k" "c # cs = occurrence k @ r"
      by (simp_all add: match_at_iff)
    with IH have "c # cs = assemble (([], k) # gks) g \<and>
        list_all (\<lambda>(g, k). pattern_free tbl g \<and> keyword tbl k) (([], k) # gks) \<and> pattern_free tbl g"
      by (simp add: pattern_free_iff)
    then show ?thesis by blast
  qed
qed

section \<open>Counting characters of the generated text\<close>

lemma keyword_count: "keyword tbl k \<Longrightarrow> \<not> kw_class tbl c \<Longrightarrow> count_list k c = 0"
  by (auto simp: keyword_def list_all_iff count_list_0_iff)

lemma element_count:
  assumes "keyword tbl k"
  shows "count_list (element k) 10 = 1" "count_list (element k) 39 = 2"
    "count_list (element k) 91 = 0" "count_list (element k) 93 = 0"
  using keyword_count [OF assms, of 10] keyword_count [OF assms, of 39]
    keyword_count [OF assms, of 91] keyword_count [OF assms, of 93]
  by (simp_all add: element_def of_string_def kw_class_simps)

lemma elements_count:
  assumes "list_all (keyword tbl) ks"
  shows "count_list (concat (map element ks)) 10 = length ks"
    "count_list (concat (map element ks)) 39 = 2 * length ks"
    "count_list (concat (map element ks)) 91 = 0"
    "count_list (concat (map element ks)) 93 = 0"
  using assms
proof (induction ks)
  case Nil
  {
    case 1 show ?case by simp
  next
    case 2 show ?case by simp
  next
    case 3 show ?case by simp
  next
    case 4 show ?case by simp
  }
next
  case (Cons k ks)
  {
    case 1
    with Cons(1) element_count(1) [of tbl k] show ?case by simp
  next
    case 2
    with Cons(2) element_count(2) [of tbl k] show ?case by simp
  next
    case 3
    with Cons(3) element_count(3) [of tbl k] show ?case by simp
  next
    case 4
    with Cons(4) element_count(4) [of tbl k] show ?case by simp
  }
qed

lemma generate_free: "pattern_free tbl t \<Longrightarrow> generate tbl t = of_string ''export const KEYWORDS = [\<newline>]\<newline>''"
  by (simp add: generate_eq pattern_free_iff header_def footer_def of_string_def)

section \<open>The run\<close>

lemma paths_distinct: "grammar_path \<noteq> output_path"
  by (simp add: grammar_path_def output_path_def)

lemma run_ok:
  assumes "files fs grammar_path = Some t" "writable fs output_path"
  shows "run tbl fs = Inr (fs\<lparr>files := (files fs)(output_path \<mapsto> generate tbl t)\<rparr>)"
  using assms by (simp add: run_def read_text_def write_text_def)

lemma run_Inr:
  assumes "run tbl fs = Inr fs'"
  shows "\<exists>t. files fs grammar_path = Some t \<and> writable fs output_path \<and>
    fs' = fs\<lparr>files := (files fs)(output_path \<mapsto> generate tbl t)\<rparr>"
  using assms
  by (auto simp: run_def read_text_def write_text_def split: option.splits if_splits)

lemma example_fs_simps:
  "files (example_fs t old) grammar_path = Some t"
  "writable (example_fs t old) output_path"
  "(example_fs t old)\<lparr>files := (files (example_fs t old))(output_path := new)\<rparr> = example_fs t new"
  by (simp_all add: example_fs_def paths_distinct)

text \<open>The unfoldings that evaluate the definitions on a concrete text.\<close>

lemmas eval_defs =
  of_string_def match_at_def marker_open_def marker_close_def kw_class_def word_char_def
  ascii_word_def finditer.simps keyword_def occurrence_def

section \<open>The properties\<close>

text \<open>
  C1. A text made of \<open>n\<close> occurrences of the pattern with the keywords \<open>k1, ..., kn\<close>, in
  this order, and of texts around them that hold no occurrence: the matches are exactly
  \<open>k1, ..., kn\<close> in this order, a keyword that occurs twice is there twice, and the
  generated text lists them, each between single quotes, in the same order. Every text
  is of this form (\<open>every_text_assembled\<close>).
\<close>

theorem occurrences_in_order:
  assumes "list_all (\<lambda>(g, k). pattern_free tbl g \<and> keyword tbl k) gks" and "pattern_free tbl g"
  shows "finditer tbl (assemble gks g) = map snd gks \<and>
    generate tbl (assemble gks g) =
      of_string ''export const KEYWORDS = [\<newline>'' @
      concat (map (\<lambda>k. of_string [CHR '' '', CHR '' '', CHR 0x27] @ k @
                        of_string [CHR 0x27, CHR '','', CHR 0x0A]) (map snd gks)) @
      of_string '']\<newline>''"
proof -
  have "finditer tbl (assemble gks g) = map snd gks"
    using assms by (rule finditer_assemble)
  then show ?thesis
    by (simp add: generate_eq header_def footer_def element_def comp_def)
qed

theorem occurrences_in_order_witness:
  "list_all (\<lambda>(g, k). pattern_free ascii_only g \<and> keyword ascii_only k)
      [(of_string ''a: '', of_string ''x''), (of_string '', '', of_string ''x'')] \<and>
   pattern_free ascii_only (of_string '';'') \<and>
   finditer ascii_only (of_string ''a: kw(\"x\"), kw(\"x\");'') = [of_string ''x'', of_string ''x''] \<and>
   generate ascii_only (of_string ''a: kw(\"x\"), kw(\"x\");'') =
     of_string ''export const KEYWORDS = [\<newline>  'x',\<newline>  'x',\<newline>]\<newline>''"
proof -
  have h1: "list_all (\<lambda>(g, k). pattern_free ascii_only g \<and> keyword ascii_only k)
      [(of_string ''a: '', of_string ''x''), (of_string '', '', of_string ''x'')]"
    by (simp add: pattern_free_iff eval_defs)
  have h2: "pattern_free ascii_only (of_string '';'')"
    by (simp add: pattern_free_iff eval_defs)
  have t: "assemble [(of_string ''a: '', of_string ''x''), (of_string '', '', of_string ''x'')]
      (of_string '';'') = of_string ''a: kw(\"x\"), kw(\"x\");''"
    by (simp add: eval_defs)
  from occurrences_in_order [OF h1 h2] h1 h2 show ?thesis
    unfolding t by (simp add: of_string_def)
qed

text \<open>
  C2. For every text the generated text is the line \<^verbatim>\<open>export const KEYWORDS = [\<close>, then
  for each match in order a line of two spaces, the keyword between single quotes and a
  comma, then the line \<^verbatim>\<open>]\<close>. It holds one opening and one closing bracket, one line
  per match besides the first and the last line, and two single quotes per match: no
  keyword breaks its line, its quotes or the list.
\<close>

theorem generate_layout:
  "generate tbl t =
      of_string ''export const KEYWORDS = [\<newline>'' @
      concat (map (\<lambda>k. of_string [CHR '' '', CHR '' '', CHR 0x27] @ k @
                        of_string [CHR 0x27, CHR '','', CHR 0x0A]) (finditer tbl t)) @
      of_string '']\<newline>'' \<and>
   count_list (generate tbl t) (of_char CHR ''['') = 1 \<and>
   count_list (generate tbl t) (of_char CHR '']'') = 1 \<and>
   count_list (generate tbl t) (of_char CHR 0x0A) = length (finditer tbl t) + 2 \<and>
   count_list (generate tbl t) (of_char CHR 0x27) = 2 * length (finditer tbl t)"
proof -
  have "generate tbl t =
      of_string ''export const KEYWORDS = [\<newline>'' @
      concat (map (\<lambda>k. of_string [CHR '' '', CHR '' '', CHR 0x27] @ k @
                        of_string [CHR 0x27, CHR '','', CHR 0x0A]) (finditer tbl t)) @
      of_string '']\<newline>''"
    by (simp add: generate_eq header_def footer_def element_def [abs_def])
  moreover have "count_list (generate tbl t) 91 = 1" "count_list (generate tbl t) 93 = 1"
    "count_list (generate tbl t) 10 = length (finditer tbl t) + 2"
    "count_list (generate tbl t) 39 = 2 * length (finditer tbl t)"
    using elements_count [OF finditer_keywords, of tbl t]
    by (simp_all add: generate_eq header_def footer_def of_string_def)
  ultimately show ?thesis by simp
qed

text \<open>
  C3. A marker call whose argument is between single quotes, or has no quotes, is no
  match and hides none: around it the scan finds what it finds in the text before and in
  the text after. Every keyword the scan returns stands in the text between
  \<^verbatim>\<open>kw("\<close> and \<^verbatim>\<open>")\<close>.
\<close>

theorem near_misses_ignored:
  assumes "list_all (kw_class tbl) x"
  shows "finditer tbl (a @ single_quoted x @ b) = finditer tbl a @ finditer tbl b \<and>
    finditer tbl (a @ unquoted x @ b) = finditer tbl a @ finditer tbl b \<and>
    (\<forall>k \<in> set (finditer tbl t).
       \<exists>p s. t = p @ of_string ''kw(\"'' @ k @ of_string ''\")'' @ s)"
proof -
  have "finditer tbl (a @ single_quoted x @ b) = finditer tbl a @ finditer tbl (single_quoted x @ b)"
    using finditer_before_marker [of tbl a "39 # x @ [39, 41] @ b"]
    by (simp add: single_quoted_simp)
  moreover have "finditer tbl (a @ unquoted x @ b) = finditer tbl a @ finditer tbl (unquoted x @ b)"
    using finditer_before_marker [of tbl a "x @ [41] @ b"]
    by (simp add: unquoted_simp)
  moreover have "\<exists>p s. t = p @ of_string ''kw(\"'' @ k @ of_string ''\")'' @ s"
    if "k \<in> set (finditer tbl t)" for k
    using finditer_sound [OF that]
    by (simp add: occurrence_def marker_open_def marker_close_def)
  ultimately show ?thesis
    using assms by (simp add: finditer_single_quoted finditer_unquoted)
qed

theorem near_misses_ignored_witness:
  "list_all (kw_class ascii_only) (of_string ''text'') \<and>
   finditer ascii_only (of_string ''kw(\"a\") kw('text') kw(\"b\")'') = [of_string ''a'', of_string ''b''] \<and>
   finditer ascii_only (of_string ''kw(\"a\") kw(text) kw(\"b\")'') = [of_string ''a'', of_string ''b''] \<and>
   (\<exists>p s. of_string ''kw(\"a\") kw(text) kw(\"b\")'' =
      p @ of_string ''kw(\"'' @ of_string ''b'' @ of_string ''\")'' @ s)"
proof -
  have h: "list_all (kw_class ascii_only) (of_string ''text'')"
    by (simp add: eval_defs)
  have a: "finditer ascii_only (of_string ''kw(\"a\") '') = [of_string ''a'']"
    and b: "finditer ascii_only (of_string '' kw(\"b\")'') = [of_string ''b'']"
    by (simp_all add: eval_defs)
  have t1: "of_string ''kw(\"a\") '' @ single_quoted (of_string ''text'') @ of_string '' kw(\"b\")''
      = of_string ''kw(\"a\") kw('text') kw(\"b\")''"
    and t2: "of_string ''kw(\"a\") '' @ unquoted (of_string ''text'') @ of_string '' kw(\"b\")''
      = of_string ''kw(\"a\") kw(text) kw(\"b\")''"
    by (simp_all add: single_quoted_def unquoted_def of_string_def)
  have m: "of_string ''b'' \<in> set (finditer ascii_only (of_string ''kw(\"a\") kw(text) kw(\"b\")''))"
    by (simp add: eval_defs)
  note inst = near_misses_ignored [OF h, of "of_string ''kw(\"a\") ''" "of_string '' kw(\"b\")''"
      "of_string ''kw(\"a\") kw(text) kw(\"b\")''", unfolded t1 t2 a b]
  from inst have c1: "finditer ascii_only (of_string ''kw(\"a\") kw('text') kw(\"b\")'') =
      [of_string ''a'', of_string ''b'']"
    by simp
  from inst have c2: "finditer ascii_only (of_string ''kw(\"a\") kw(text) kw(\"b\")'') =
      [of_string ''a'', of_string ''b'']"
    by simp
  from inst m have c3: "\<exists>p s. of_string ''kw(\"a\") kw(text) kw(\"b\")'' =
      p @ of_string ''kw(\"'' @ of_string ''b'' @ of_string ''\")'' @ s"
    by blast
  from h c1 c2 c3 show ?thesis by blast
qed

text \<open>
  C4. When the grammar file holds no occurrence of the pattern, and the file system lets
  the script read and write, the run ends without an error: there is no match, the
  chunks are the opening and the closing line alone, and the output file holds the
  list with no element.
\<close>

theorem no_occurrence_empty_list:
  assumes "pattern_free tbl t" "files fs grammar_path = Some t" "writable fs output_path"
  shows "finditer tbl t = [] \<and> chunks tbl t = [header, footer] \<and>
    run tbl fs =
      Inr (fs\<lparr>files := (files fs)(output_path \<mapsto> of_string ''export const KEYWORDS = [\<newline>]\<newline>'')\<rparr>)"
proof -
  from assms(1) have "finditer tbl t = []" by (simp add: pattern_free_iff)
  moreover from this have "chunks tbl t = [header, footer]"
    by (simp add: chunks_def append_matches_eq)
  moreover from run_ok [OF assms(2,3)] generate_free [OF assms(1)]
  have "run tbl fs =
      Inr (fs\<lparr>files := (files fs)(output_path \<mapsto> of_string ''export const KEYWORDS = [\<newline>]\<newline>'')\<rparr>)"
    by simp
  ultimately show ?thesis by simp
qed

theorem no_occurrence_empty_list_witness:
  "pattern_free ascii_only (of_string ''module.exports = grammar({ name: 'sql' })'') \<and>
   files (example_fs (of_string ''module.exports = grammar({ name: 'sql' })'') None) grammar_path =
     Some (of_string ''module.exports = grammar({ name: 'sql' })'') \<and>
   writable (example_fs (of_string ''module.exports = grammar({ name: 'sql' })'') None) output_path \<and>
   run ascii_only (example_fs (of_string ''module.exports = grammar({ name: 'sql' })'') None) =
     Inr (example_fs (of_string ''module.exports = grammar({ name: 'sql' })'')
            (Some (of_string ''export const KEYWORDS = [\<newline>]\<newline>'')))"
proof -
  let ?t = "of_string ''module.exports = grammar({ name: 'sql' })''"
  have h1: "pattern_free ascii_only ?t"
    by (simp add: pattern_free_iff eval_defs)
  have h2: "files (example_fs ?t None) grammar_path = Some ?t"
    by (rule example_fs_simps)
  have h3: "writable (example_fs ?t None) output_path"
    by (rule example_fs_simps)
  from no_occurrence_empty_list [OF h1 h2 h3] h1 h2 h3 show ?thesis
    by (simp add: example_fs_simps)
qed

text \<open>
  C5, against the script. The generated text is not the bare list \<^verbatim>\<open>[ ... ]\<close>: the script
  writes \<^verbatim>\<open>export const KEYWORDS = \<close> before the bracket. The bare list is not what it
  writes for the empty text, nor for a text with the three keywords.
\<close>

theorem bare_list_counterexample:
  "generate ascii_only (of_string '''') \<noteq> of_string ''[\<newline>]\<newline>'' \<and>
   generate ascii_only (of_string ''kw(\"select\"), kw(\"from\"), kw(\"group by\")'') \<noteq>
     of_string ''[\<newline>  'select',\<newline>  'from',\<newline>  'group by',\<newline>]\<newline>''"
  by (simp add: generate_eq header_def footer_def of_string_def)

text \<open>
  C5, amended. For a text with no occurrence of the pattern the generated text is exactly
  \<^verbatim>\<open>export const KEYWORDS = [\<close>, a newline, \<^verbatim>\<open>]\<close> and a newline. For a text whose
  occurrences are \<^verbatim>\<open>kw("select")\<close>, \<^verbatim>\<open>kw("from")\<close> and \<^verbatim>\<open>kw("group by")\<close>, in this order,
  it is exactly the same declaration with the three keywords, each on a line between
  single quotes.
\<close>

theorem exact_output:
  assumes "pattern_free tbl t" and "pattern_free tbl g0" "pattern_free tbl g1" "pattern_free tbl g2" "pattern_free tbl g3"
  shows "generate tbl t = of_string ''export const KEYWORDS = [\<newline>]\<newline>'' \<and>
    generate tbl (g0 @ of_string ''kw(\"select\")'' @ g1 @ of_string ''kw(\"from\")'' @ g2 @
        of_string ''kw(\"group by\")'' @ g3) =
      of_string ''export const KEYWORDS = [\<newline>  'select',\<newline>  'from',\<newline>  'group by',\<newline>]\<newline>''"
proof -
  have kw: "keyword tbl (of_string ''select'')" "keyword tbl (of_string ''from'')"
    "keyword tbl (of_string ''group by'')"
    by (simp_all add: eval_defs)
  have occ: "of_string ''kw(\"select\")'' = occurrence (of_string ''select'')"
    "of_string ''kw(\"from\")'' = occurrence (of_string ''from'')"
    "of_string ''kw(\"group by\")'' = occurrence (of_string ''group by'')"
    by (simp_all add: occurrence_simp of_string_def)
  have "list_all (\<lambda>(g, k). pattern_free tbl g \<and> keyword tbl k)
      [(g0, of_string ''select''), (g1, of_string ''from''), (g2, of_string ''group by'')]"
    using assms kw by simp
  from finditer_assemble [OF this assms(5)]
  have "finditer tbl (g0 @ of_string ''kw(\"select\")'' @ g1 @ of_string ''kw(\"from\")'' @ g2 @
        of_string ''kw(\"group by\")'' @ g3) =
      [of_string ''select'', of_string ''from'', of_string ''group by'']"
    by (simp add: occ)
  then have "generate tbl (g0 @ of_string ''kw(\"select\")'' @ g1 @ of_string ''kw(\"from\")'' @ g2 @
        of_string ''kw(\"group by\")'' @ g3) =
      of_string ''export const KEYWORDS = [\<newline>  'select',\<newline>  'from',\<newline>  'group by',\<newline>]\<newline>''"
    by (simp add: generate_eq header_def footer_def element_def of_string_def)
  with generate_free [OF assms(1)] show ?thesis by simp
qed

theorem exact_output_witness:
  "pattern_free ascii_only (of_string ''rules: {}'') \<and> pattern_free ascii_only (of_string ''seq('') \<and>
   pattern_free ascii_only (of_string '', '') \<and> pattern_free ascii_only (of_string '')'') \<and>
   generate ascii_only (of_string ''rules: {}'') = of_string ''export const KEYWORDS = [\<newline>]\<newline>'' \<and>
   generate ascii_only (of_string ''seq(kw(\"select\"), kw(\"from\"), kw(\"group by\"))'') =
     of_string ''export const KEYWORDS = [\<newline>  'select',\<newline>  'from',\<newline>  'group by',\<newline>]\<newline>''"
proof -
  have h: "pattern_free ascii_only (of_string ''rules: {}'')" "pattern_free ascii_only (of_string ''seq('')"
    "pattern_free ascii_only (of_string '', '')" "pattern_free ascii_only (of_string '')'')"
    by (simp_all add: pattern_free_iff eval_defs)
  have t: "of_string ''seq('' @ of_string ''kw(\"select\")'' @ of_string '', '' @
      of_string ''kw(\"from\")'' @ of_string '', '' @ of_string ''kw(\"group by\")'' @ of_string '')'' =
      of_string ''seq(kw(\"select\"), kw(\"from\"), kw(\"group by\"))''"
    by (simp add: of_string_def)
  from exact_output [OF h(1) h(2) h(3) h(3) h(4)] h show ?thesis
    unfolding t by simp
qed

text \<open>
  C6. The output is determined by the text of the grammar file: a run on any file system
  whose grammar file holds the same text leaves the same text in the output file, and a
  second run on the result of a run changes nothing.
\<close>

theorem rerun_identical:
  assumes "run tbl fs = Inr fs1"
    and "files fs2 grammar_path = files fs grammar_path" "run tbl fs2 = Inr fs3"
  shows "run tbl fs1 = Inr fs1 \<and> files fs3 output_path = files fs1 output_path"
proof -
  from run_Inr [OF assms(1)] obtain t where t: "files fs grammar_path = Some t"
    "writable fs output_path" "fs1 = fs\<lparr>files := (files fs)(output_path \<mapsto> generate tbl t)\<rparr>"
    by blast
  then have "files fs1 grammar_path = Some t" "writable fs1 output_path"
    using paths_distinct by simp_all
  from run_ok [OF this] t(3) have "run tbl fs1 = Inr fs1"
    by simp
  moreover from run_Inr [OF assms(3)] assms(2) t(1)
  have "files fs3 output_path = Some (generate tbl t)"
    by auto
  ultimately show ?thesis
    using t(3) by simp
qed

theorem rerun_identical_witness:
  "run ascii_only (example_fs (of_string ''kw(\"as\")'') None) =
     Inr (example_fs (of_string ''kw(\"as\")'')
            (Some (of_string ''export const KEYWORDS = [\<newline>  'as',\<newline>]\<newline>''))) \<and>
   files (example_fs (of_string ''kw(\"as\")'') (Some (of_string ''stale''))) grammar_path =
     files (example_fs (of_string ''kw(\"as\")'') None) grammar_path \<and>
   run ascii_only (example_fs (of_string ''kw(\"as\")'') (Some (of_string ''stale''))) =
     Inr (example_fs (of_string ''kw(\"as\")'')
            (Some (of_string ''export const KEYWORDS = [\<newline>  'as',\<newline>]\<newline>''))) \<and>
   run ascii_only (example_fs (of_string ''kw(\"as\")'')
       (Some (of_string ''export const KEYWORDS = [\<newline>  'as',\<newline>]\<newline>''))) =
     Inr (example_fs (of_string ''kw(\"as\")'')
            (Some (of_string ''export const KEYWORDS = [\<newline>  'as',\<newline>]\<newline>''))) \<and>
   files (example_fs (of_string ''kw(\"as\")'')
       (Some (of_string ''export const KEYWORDS = [\<newline>  'as',\<newline>]\<newline>''))) output_path =
     Some (of_string ''export const KEYWORDS = [\<newline>  'as',\<newline>]\<newline>'')"
proof -
  let ?t = "of_string ''kw(\"as\")''"
  let ?g = "of_string ''export const KEYWORDS = [\<newline>  'as',\<newline>]\<newline>''"
  have g: "generate ascii_only ?t = ?g"
    by (simp add: generate_eq header_def footer_def element_def eval_defs)
  have h1: "run ascii_only (example_fs ?t None) = Inr (example_fs ?t (Some ?g))"
    using run_ok [of "example_fs ?t None" ?t ascii_only]
    by (simp add: example_fs_simps g)
  have h2: "files (example_fs ?t (Some (of_string ''stale''))) grammar_path =
      files (example_fs ?t None) grammar_path"
    by (simp add: example_fs_simps)
  have h3: "run ascii_only (example_fs ?t (Some (of_string ''stale''))) = Inr (example_fs ?t (Some ?g))"
    using run_ok [of "example_fs ?t (Some (of_string ''stale''))" ?t ascii_only]
    by (simp add: example_fs_simps g)
  from rerun_identical [OF h1 h2 h3] h1 h2 h3 show ?thesis
    by (simp add: example_fs_def)
qed

text \<open>
  C7. The pattern matches at a position exactly when the text there is \<^verbatim>\<open>kw("\<close>, a
  non-empty run of class characters (word characters and spaces) and \<^verbatim>\<open>")\<close>; the match
  is the run and the text after the closing parenthesis. The scan collects every
  occurrence, wherever it stands: it returns the matches of the text before it, then its
  keyword, then the matches of the text after it. Every keyword it returns consists of
  class characters, and it returns nothing exactly when the text holds no occurrence.
\<close>

theorem finditer_collects:
  assumes "keyword tbl k'"
  shows "(match_at tbl t = Some (k, rest) \<longleftrightarrow>
       k \<noteq> [] \<and> list_all (kw_class tbl) k \<and> t = of_string ''kw(\"'' @ k @ of_string ''\")'' @ rest) \<and>
    finditer tbl (a @ of_string ''kw(\"'' @ k' @ of_string ''\")'' @ b) =
      finditer tbl a @ k' # finditer tbl b \<and>
    list_all (list_all (kw_class tbl)) (finditer tbl u) \<and>
    (finditer tbl u = [] \<longleftrightarrow> pattern_free tbl u)"
proof -
  have "match_at tbl t = Some (k, rest) \<longleftrightarrow>
       k \<noteq> [] \<and> list_all (kw_class tbl) k \<and> t = of_string ''kw(\"'' @ k @ of_string ''\")'' @ rest"
    by (simp add: match_at_iff keyword_def occurrence_def marker_open_def marker_close_def)
  moreover have "finditer tbl (a @ of_string ''kw(\"'' @ k' @ of_string ''\")'' @ b) =
      finditer tbl a @ k' # finditer tbl b"
    using finditer_compose [OF assms, of a b]
    by (simp add: occurrence_def marker_open_def marker_close_def)
  moreover have "list_all (list_all (kw_class tbl)) (finditer tbl u)"
    using finditer_keywords [of tbl u] by (auto simp: list_all_iff keyword_def)
  ultimately show ?thesis
    by (simp add: pattern_free_iff)
qed

theorem finditer_collects_witness:
  "keyword ascii_only (of_string ''group by'') \<and>
   match_at ascii_only (of_string ''kw(\"group by\"), kw(\"x_1\")'') =
     Some (of_string ''group by'', of_string '', kw(\"x_1\")'') \<and>
   finditer ascii_only (of_string ''kw(\"a\") kw(\"group by\"), kw(\"x_1\")'') =
     [of_string ''a'', of_string ''group by'', of_string ''x_1'']"
proof -
  have h: "keyword ascii_only (of_string ''group by'')"
    by (simp add: eval_defs)
  have a: "finditer ascii_only (of_string ''kw(\"a\") '') = [of_string ''a'']"
    and b: "finditer ascii_only (of_string '', kw(\"x_1\")'') = [of_string ''x_1'']"
    by (simp_all add: eval_defs)
  have t: "of_string ''kw(\"a\") '' @ of_string ''kw(\"'' @ of_string ''group by'' @ of_string ''\")'' @
      of_string '', kw(\"x_1\")'' = of_string ''kw(\"a\") kw(\"group by\"), kw(\"x_1\")''"
    "of_string ''kw(\"'' @ of_string ''group by'' @ of_string ''\")'' @ of_string '', kw(\"x_1\")'' =
      of_string ''kw(\"group by\"), kw(\"x_1\")''"
    by (simp_all add: of_string_def)
  note inst = finditer_collects [OF h, of
      "of_string ''kw(\"'' @ of_string ''group by'' @ of_string ''\")'' @ of_string '', kw(\"x_1\")''"
      "of_string ''group by''" "of_string '', kw(\"x_1\")''" "of_string ''kw(\"a\") ''"
      "of_string '', kw(\"x_1\")''" "[]"]
  from inst h have "match_at ascii_only
      (of_string ''kw(\"'' @ of_string ''group by'' @ of_string ''\")'' @ of_string '', kw(\"x_1\")'') =
     Some (of_string ''group by'', of_string '', kw(\"x_1\")'')"
    unfolding keyword_def by blast
  then have m: "match_at ascii_only (of_string ''kw(\"group by\"), kw(\"x_1\")'') =
     Some (of_string ''group by'', of_string '', kw(\"x_1\")'')"
    by (simp only: t)
  from inst have "finditer ascii_only (of_string ''kw(\"a\") '' @ of_string ''kw(\"'' @
      of_string ''group by'' @ of_string ''\")'' @ of_string '', kw(\"x_1\")'') =
     finditer ascii_only (of_string ''kw(\"a\") '') @
     of_string ''group by'' # finditer ascii_only (of_string '', kw(\"x_1\")'')"
    by blast
  then have f: "finditer ascii_only (of_string ''kw(\"a\") kw(\"group by\"), kw(\"x_1\")'') =
     [of_string ''a'', of_string ''group by'', of_string ''x_1'']"
    using a b by (simp add: of_string_def)
  from h m f show ?thesis by blast
qed

text \<open>
  C8. Whatever the output file held before the run (\<open>old\<close>: nothing, or any text), after
  the run it holds the text generated from the grammar file, and nothing else of the file
  system has changed: the result does not depend on \<open>old\<close>.
\<close>

theorem output_overwritten:
  assumes "files fs grammar_path = Some t" "writable fs output_path"
  shows "run tbl (fs\<lparr>files := (files fs)(output_path := old)\<rparr>) =
    Inr (fs\<lparr>files := (files fs)(output_path \<mapsto> generate tbl t)\<rparr>)"
proof -
  let ?fs = "fs\<lparr>files := (files fs)(output_path := old)\<rparr>"
  from assms paths_distinct have "files ?fs grammar_path = Some t" "writable ?fs output_path"
    by simp_all
  from run_ok [OF this] show ?thesis
    by simp
qed

theorem output_overwritten_witness:
  "files (example_fs (of_string ''kw(\"as\")'') None) grammar_path = Some (of_string ''kw(\"as\")'') \<and>
   writable (example_fs (of_string ''kw(\"as\")'') None) output_path \<and>
   run ascii_only (example_fs (of_string ''kw(\"as\")'')
       (Some (of_string ''export const KEYWORDS = [\<newline>  'old',\<newline>  'stale',\<newline>]\<newline>''))) =
     Inr (example_fs (of_string ''kw(\"as\")'')
            (Some (of_string ''export const KEYWORDS = [\<newline>  'as',\<newline>]\<newline>'')))"
proof -
  let ?t = "of_string ''kw(\"as\")''"
  let ?old = "Some (of_string ''export const KEYWORDS = [\<newline>  'old',\<newline>  'stale',\<newline>]\<newline>'')"
  have h1: "files (example_fs ?t None) grammar_path = Some ?t"
    by (rule example_fs_simps)
  have h2: "writable (example_fs ?t None) output_path"
    by (rule example_fs_simps)
  have g: "generate ascii_only ?t = of_string ''export const KEYWORDS = [\<newline>  'as',\<newline>]\<newline>''"
    by (simp add: generate_eq header_def footer_def element_def eval_defs)
  from output_overwritten [OF h1 h2, of ascii_only ?old] h1 h2 show ?thesis
    by (simp add: example_fs_simps g)
qed

text \<open>
  C9. The marker with an empty argument, \<^verbatim>\<open>kw("")\<close>, is no match, wherever it stands: the
  scan finds around it what it finds in the text before and in the text after. No
  keyword the scan returns is empty.
\<close>

theorem empty_argument_no_match:
  "match_at tbl (of_string ''kw(\"\")'' @ b) = None \<and>
   finditer tbl (a @ of_string ''kw(\"\")'' @ b) = finditer tbl a @ finditer tbl b \<and>
   [] \<notin> set (finditer tbl t)"
proof -
  have "match_at tbl (of_string ''kw(\"\")'' @ b) = None"
    using match_at_start [of tbl "of_string ''kw(\"\")'' @ b"]
    by (cases "match_at tbl (of_string ''kw(\"\")'' @ b)") (auto simp: of_string_def kw_class_simps)
  moreover have "finditer tbl (a @ of_string ''kw(\"\")'' @ b) = finditer tbl a @ finditer tbl b"
    using finditer_before_marker [of tbl a "34 # 34 # 41 # b"] finditer_empty_argument [of tbl b]
    by (simp add: of_string_def)
  moreover have "[] \<notin> set (finditer tbl t)"
    using finditer_sound [of "[]" tbl t] by (auto simp: keyword_def)
  ultimately show ?thesis by simp
qed

text \<open>
  C10. The scan does not ask for a word boundary before the marker: when the occurrence
  follows word characters, as in \<^verbatim>\<open>mkw("x")\<close>, its keyword is matched all the same and
  written to the generated text.
\<close>

theorem marker_not_anchored:
  assumes "w \<noteq> []" "list_all (word_char tbl) w" "keyword tbl k"
  shows "finditer tbl (w @ of_string ''kw(\"'' @ k @ of_string ''\")'' @ b) = k # finditer tbl b \<and>
    generate tbl (w @ of_string ''kw(\"'' @ k @ of_string ''\")'') =
      of_string ''export const KEYWORDS = [\<newline>'' @
      of_string [CHR '' '', CHR '' '', CHR 0x27] @ k @ of_string [CHR 0x27, CHR '','', CHR 0x0A] @
      of_string '']\<newline>''"
proof -
  from free_word [OF assms(2)] have "finditer tbl w = []"
    by (simp add: pattern_free_iff)
  with finditer_compose [OF assms(3), of w]
  have *: "finditer tbl (w @ of_string ''kw(\"'' @ k @ of_string ''\")'' @ b) = k # finditer tbl b" for b
    by (simp add: occurrence_def marker_open_def marker_close_def)
  from * [of "[]"] have "generate tbl (w @ of_string ''kw(\"'' @ k @ of_string ''\")'') =
      of_string ''export const KEYWORDS = [\<newline>'' @
      of_string [CHR '' '', CHR '' '', CHR 0x27] @ k @ of_string [CHR 0x27, CHR '','', CHR 0x0A] @
      of_string '']\<newline>''"
    by (simp add: generate_eq header_def footer_def element_def)
  with * show ?thesis by simp
qed

theorem marker_not_anchored_witness:
  "of_string ''m'' \<noteq> [] \<and> list_all (word_char ascii_only) (of_string ''m'') \<and>
   keyword ascii_only (of_string ''x'') \<and>
   finditer ascii_only (of_string ''mkw(\"x\")'') = [of_string ''x''] \<and>
   generate ascii_only (of_string ''mkw(\"x\")'') =
     of_string ''export const KEYWORDS = [\<newline>  'x',\<newline>]\<newline>''"
proof -
  have h: "of_string ''m'' \<noteq> []" "list_all (word_char ascii_only) (of_string ''m'')"
    "keyword ascii_only (of_string ''x'')"
    by (simp_all add: eval_defs)
  have t: "of_string ''m'' @ of_string ''kw(\"'' @ of_string ''x'' @ of_string ''\")'' =
      of_string ''mkw(\"x\")''"
    by (simp add: of_string_def)
  from marker_not_anchored [OF h, of "[]"] h show ?thesis
    using t by (simp add: of_string_def)
qed

end
